theory Spec2Isabelle
  imports Main
begin

section \<open>The image-search client (src/ddg\_search/client.py)\<close>

text \<open>
  A shallow embedding of the class \<open>Client\<close>: the token fetch \<open>_get_vqd\<close>, the paginated
  generator \<open>asearch\<close>, the page scraper \<open>get_images_from_page\<close> and \<open>download\<close>.
  A Python \<open>str\<close> is a \<open>string\<close>; an \<open>Optional[str]\<close> argument is a \<open>string option\<close>.
  The operations modelled here look at ASCII characters only (the separators \<open>/\<close>, \<open>?\<close>
  and \<open>,\<close>, the classes of the token pattern, the letters of the safe-search levels).
  Every exception that can leave a method is a value of \<open>exn\<close>, and a method that can
  raise returns \<open>exn + 'a\<close>.
\<close>

subsection \<open>Exceptions\<close>

text \<open>
  \<open>NetworkError\<close>, \<open>VQDTokenError\<close> and \<open>ParsingError\<close> are the client's own exceptions
  (imported from \<open>.exceptions\<close>). \<open>HTTPStatusError\<close> is httpx's exception for a response
  whose status is not a success, raised by \<open>response.raise_for_status()\<close>; in httpx it
  derives from \<open>HTTPError\<close> and not from \<open>RequestError\<close>, so a handler
  \<open>except httpx.RequestError\<close> does not catch it. \<open>TypeError\<close> and \<open>AttributeError\<close> are
  Python's built-ins.
\<close>

datatype exn =
  NetworkError | VQDTokenError | ParsingError | HTTPStatusError | TypeError | AttributeError

subsection \<open>Python string operations used by the client\<close>

text \<open>
  \<open>str.lower()\<close> on the ASCII letters; every other character is left as it is. (Read
  as the UTF-8 bytes of the Python string, a character outside ASCII never lowers to
  one of the letters of \<open>on\<close>, \<open>moderate\<close> or \<open>off\<close>, which is all the client looks up.)
\<close>

definition lower_char :: "char \<Rightarrow> char" where
  "lower_char c =
     (case map_of (zip ''ABCDEFGHIJKLMNOPQRSTUVWXYZ'' ''abcdefghijklmnopqrstuvwxyz'') c of
        Some d \<Rightarrow> d
      | None \<Rightarrow> c)"

definition lower :: "string \<Rightarrow> string" where
  "lower s = map lower_char s"

text \<open>\<open>sep.join(xs)\<close>.\<close>

fun join :: "string \<Rightarrow> string list \<Rightarrow> string" where
  "join sep [] = []"
| "join sep [x] = x"
| "join sep (x # y # ys) = x @ sep @ join sep (y # ys)"

text \<open>
  \<open>s.split(c)\<close> for a one-character separator: the pieces between the occurrences of
  \<open>c\<close>; the list is never empty (\<open>''''.split(c)\<close> is \<open>['''']\<close>).
\<close>

fun split_on :: "char \<Rightarrow> string \<Rightarrow> string list" where
  "split_on c [] = [[]]"
| "split_on c (x # xs) =
     (if x = c then [] # split_on c xs
      else (case split_on c xs of
              [] \<Rightarrow> [[x]]
            | w # ws \<Rightarrow> (x # w) # ws))"

subsection \<open>The arguments of \<open>asearch\<close>\<close>

text \<open>The arguments \<open>keywords\<close> and \<open>size\<close> are the fields \<open>keywords_arg\<close> and
  \<open>size_arg\<close> (both names are taken in Isabelle).\<close>

record search_args =
  keywords_arg :: string
  max_results :: "int option"
  region :: string
  safesearch :: string
  timelimit :: "string option"
  size_arg :: "string option"
  color :: "string option"
  type_image :: "string option"
  layout :: "string option"
  license_image :: "string option"

text \<open>The defaults of the signature: \<open>asearch(keywords)\<close> with nothing else given.\<close>

definition default_args :: "string \<Rightarrow> search_args" where
  "default_args kw =
     \<lparr>keywords_arg = kw, max_results = None, region = ''wt-wt'', safesearch = ''moderate'',
      timelimit = None, size_arg = None, color = None, type_image = None, layout = None,
      license_image = None\<rparr>"

subsection \<open>Safe-search code (client.py, lines 117--119)\<close>

definition safesearch_map :: "(string \<times> string) list" where
  "safesearch_map = [(''on'', ''1''), (''moderate'', ''-1''), (''off'', ''-2'')]"

text \<open>\<open>p_value = safesearch_map.get(safesearch.lower(), "-1")\<close>, as a function of the
  argument \<open>safesearch\<close>.\<close>

definition p_value :: "string \<Rightarrow> string" where
  "p_value s =
     (case map_of safesearch_map (lower s) of
        Some v \<Rightarrow> v
      | None \<Rightarrow> ''-1'')"

subsection \<open>Filter string (client.py, lines 121--130)\<close>

text \<open>
  \<open>f"time:{timelimit}" if timelimit else ""\<close>: an argument that is \<open>None\<close> or the empty
  string is falsy and gives the empty string.
\<close>

definition filter_entry :: "string \<Rightarrow> string option \<Rightarrow> string" where
  "filter_entry key v =
     (case v of
        None \<Rightarrow> []
      | Some x \<Rightarrow> if x = [] then [] else key @ '':'' @ x)"

definition filters :: "'a search_args_scheme \<Rightarrow> string list" where
  "filters a =
     [filter_entry ''time'' (timelimit a),
      filter_entry ''size'' (size_arg a),
      filter_entry ''color'' (color a),
      filter_entry ''type'' (type_image a),
      filter_entry ''layout'' (layout a),
      filter_entry ''license'' (license_image a)]"

text \<open>\<open>f_value = ",".join(filter(None, filters))\<close>: \<open>filter(None, _)\<close> keeps the truthy
  (non-empty) strings.\<close>

definition f_value :: "'a search_args_scheme \<Rightarrow> string" where
  "f_value a = join '','' (filter (\<lambda>s. s \<noteq> []) (filters a))"

subsection \<open>HTTP requests\<close>

text \<open>
  What one call of the httpx client gives, followed by \<open>response.raise_for_status()\<close>:
  \<open>RequestFailed\<close> when the call raises \<open>httpx.RequestError\<close> (the request could not
  complete), otherwise \<open>Response ok body\<close>, where \<open>ok\<close> tells whether the status is a
  success (\<open>raise_for_status\<close> raises \<open>HTTPStatusError\<close> when it is not) and \<open>body\<close> is
  what the caller reads from the response.
\<close>

datatype 'b http_result = RequestFailed | Response bool 'b

subsection \<open>Token fetch: \<open>_get_vqd\<close> (client.py, lines 50--80)\<close>

text \<open>
  The pattern \<open>vqd=['"]([a-zA-Z0-9-]+)['"]\<close>. \<open>is_quote\<close> is the class \<open>['"]\<close>,
  \<open>is_token_char\<close> the class \<open>[a-zA-Z0-9-]\<close>.
\<close>

definition is_quote :: "char \<Rightarrow> bool" where
  "is_quote c = (c = CHR 0x27 \<or> c = CHR 0x22)"

definition is_token_char :: "char \<Rightarrow> bool" where
  "is_token_char c =
     (c \<in> set ''abcdefghijklmnopqrstuvwxyzABCDEFGHIJKLMNOPQRSTUVWXYZ0123456789-'')"

fun strip_prefix :: "'a list \<Rightarrow> 'a list \<Rightarrow> 'a list option" where
  "strip_prefix [] s = Some s"
| "strip_prefix (p # ps) [] = None"
| "strip_prefix (p # ps) (c # cs) = (if p = c then strip_prefix ps cs else None)"

text \<open>
  The pattern matched at the start of \<open>s\<close>; the result is group 1. The group is
  greedy, and the character after it must be a quote, which is not in the group's class:
  giving back characters of the group can never make the pattern match, so the longest
  run of group characters is the only candidate.
\<close>

definition match_at :: "string \<Rightarrow> string option" where
  "match_at s =
     (case strip_prefix ''vqd='' s of
        None \<Rightarrow> None
      | Some r \<Rightarrow>
          (case r of
             [] \<Rightarrow> None
           | q # t \<Rightarrow>
               if \<not> is_quote q then None
               else if takeWhile is_token_char t = [] then None
               else (case dropWhile is_token_char t of
                       [] \<Rightarrow> None
                     | q' # _ \<Rightarrow>
                         if is_quote q' then Some (takeWhile is_token_char t) else None)))"

text \<open>\<open>re.search(pattern, text)\<close> followed by \<open>match.group(1)\<close>: the match at the leftmost
  position where the pattern matches; \<open>None\<close> when there is no match.\<close>

fun re_search :: "string \<Rightarrow> string option" where
  "re_search [] = match_at []"
| "re_search (c # cs) =
     (case match_at (c # cs) of
        Some tok \<Rightarrow> Some tok
      | None \<Rightarrow> re_search cs)"

text \<open>
  Lines 72--80, the second \<open>try\<close> of \<open>_get_vqd\<close>, as a function of the body of the
  response (\<open>None\<close> when reading the response's text raises): every exception raised
  there, and the absence of a match, is \<open>VQDTokenError\<close>.
\<close>

definition vqd_from_body :: "string option \<Rightarrow> exn + string" where
  "vqd_from_body body =
     (case body of
        None \<Rightarrow> Inl VQDTokenError
      | Some text \<Rightarrow>
          (case re_search text of
             Some tok \<Rightarrow> Inr tok
           | None \<Rightarrow> Inl VQDTokenError))"

text \<open>
  \<open>_get_vqd\<close>, as a function of what the POST gives. \<open>HTTPStatusError\<close> is not a
  \<open>RequestError\<close>: it leaves the first \<open>try\<close> (lines 64--70) as it is.
\<close>

definition get_vqd :: "string option http_result \<Rightarrow> exn + string" where
  "get_vqd r =
     (case r of
        RequestFailed \<Rightarrow> Inl NetworkError
      | Response ok body \<Rightarrow>
          if \<not> ok then Inl HTTPStatusError
          else vqd_from_body body)"

subsection \<open>The generator \<open>asearch\<close> (client.py, lines 82--172)\<close>

text \<open>The query parameters \<open>l\<close>, \<open>o\<close>, \<open>q\<close>, \<open>s\<close>, \<open>p\<close>, \<open>f\<close>, \<open>vqd\<close> of one page request;
  \<open>param_s\<close> is the offset, sent as \<open>str(offset)\<close>.\<close>

record params =
  param_l :: string
  param_o :: string
  param_q :: string
  param_s :: nat
  param_p :: string
  param_f :: string
  param_vqd :: string

definition make_params :: "'a search_args_scheme \<Rightarrow> string \<Rightarrow> nat \<Rightarrow> params" where
  "make_params a token offset =
     \<lparr>param_l = region a, param_o = ''json'', param_q = keywords_arg a, param_s = offset,
      param_p = p_value (safesearch a), param_f = f_value a, param_vqd = token\<rparr>"

text \<open>
  The value of \<open>data.get("results",)\<close> for a decoded object \<open>data\<close>, by what lines
  156--172 do with it:
  \<^item> \<open>NoResults\<close>: the key is absent or its value is null (\<open>get\<close> gives \<open>None\<close>), or the
    value is another falsy value that is not an array (\<open>false\<close>, \<open>0\<close>, \<open>""\<close>, \<open>{}\<close>);
  \<^item> \<open>Entries es\<close>: an array with the entries \<open>es\<close> (a non-empty string or object is
    iterated in the same way, its characters or keys being the entries, and \<open>len\<close> their
    number);
  \<^item> \<open>NotIterable\<close>: \<open>true\<close> or a number other than 0, which is truthy and on which
    \<open>for res in results\<close> raises \<open>TypeError\<close>.
\<close>

datatype 'raw results_value = NoResults | Entries "'raw list" | NotIterable

text \<open>
  The body of a page response: \<open>NotJson\<close> when \<open>response.json()\<close> raises; \<open>NotObject\<close>
  when it decodes to a JSON value that is not an object (an array, a string, a number,
  \<open>true\<close>, \<open>false\<close>, \<open>null\<close>), on which \<open>data.get\<close> raises \<open>AttributeError\<close> outside
  every \<open>try\<close>; otherwise \<open>JsonDict results has_next\<close> for a decoded object \<open>data\<close>, where
  \<open>results\<close> is \<open>data.get("results",)\<close> and \<open>has_next\<close> is \<open>"next" in data\<close>.
\<close>

datatype 'raw json_body = NotJson | NotObject | JsonDict "'raw results_value" bool

text \<open>What an observer of the generator sees: the page requests it issues and the
  values it yields, in order, and how it ends. \<open>Pending\<close>: the last page request has no
  answer in the list of responses handed to the model.\<close>

datatype 'res event = Request params | Yield 'res

datatype outcome = Stopped | Raised exn | Pending

text \<open>\<open>max_results is not None and results_yielded >= max_results\<close>\<close>

definition cap_reached :: "int option \<Rightarrow> nat \<Rightarrow> bool" where
  "cap_reached mx results_yielded =
     (case mx of None \<Rightarrow> False | Some m \<Rightarrow> int results_yielded \<ge> m)"

text \<open>
  The \<open>for res in results\<close> loop (lines 159--167) from \<open>results_yielded = n\<close>: the values
  yielded, the new \<open>results_yielded\<close>, and whether the loop ran to its end or left the
  generator by \<open>return\<close>. \<open>validate\<close> is \<open>ImageResult.model_validate\<close> (the module
  \<open>models\<close> is not part of the sources): \<open>None\<close> when it raises.
\<close>

datatype loop_exit = Completed | Returned

fun for_results ::
  "('raw \<Rightarrow> 'res option) \<Rightarrow> int option \<Rightarrow> 'raw list \<Rightarrow> nat \<Rightarrow> 'res list \<times> nat \<times> loop_exit" where
  "for_results validate mx [] n = ([], n, Completed)"
| "for_results validate mx (res # rest) n =
     (if cap_reached mx n then ([], n, Returned)
      else (case validate res of
              None \<Rightarrow> for_results validate mx rest n
            | Some r \<Rightarrow>
                (case for_results validate mx rest (n + 1) of
                   (ys, n', ex) \<Rightarrow> (r # ys, n', ex))))"

definition prepend :: "'e list \<Rightarrow> 'e list \<times> outcome \<Rightarrow> 'e list \<times> outcome" where
  "prepend evs t = (evs @ fst t, snd t)"

text \<open>
  The \<open>while True\<close> loop (lines 132--172), one iteration per response of the list;
  \<open>mk offset\<close> is the dictionary \<open>params\<close> of the iteration.
\<close>

fun asearch_loop ::
  "('raw \<Rightarrow> 'res option) \<Rightarrow> int option \<Rightarrow> (nat \<Rightarrow> params) \<Rightarrow>
   'raw json_body http_result list \<Rightarrow> nat \<Rightarrow> nat \<Rightarrow> 'res event list \<times> outcome" where
  "asearch_loop validate mx mk [] offset n = ([Request (mk offset)], Pending)"
| "asearch_loop validate mx mk (r # rs) offset n =
     (case r of
        RequestFailed \<Rightarrow> ([Request (mk offset)], Raised NetworkError)
      | Response ok body \<Rightarrow>
          if \<not> ok then ([Request (mk offset)], Raised HTTPStatusError)
          else (case body of
                  NotJson \<Rightarrow> ([Request (mk offset)], Raised ParsingError)
                | NotObject \<Rightarrow> ([Request (mk offset)], Raised AttributeError)
                | JsonDict results has_next \<Rightarrow>
                    (case results of
                       NoResults \<Rightarrow> ([Request (mk offset)], Stopped)
                     | NotIterable \<Rightarrow> ([Request (mk offset)], Raised TypeError)
                     | Entries es \<Rightarrow>
                         if es = [] then ([Request (mk offset)], Stopped)
                         else (case for_results validate mx es n of
                                 (ys, n', ex) \<Rightarrow>
                                   if ex = Returned then (Request (mk offset) # map Yield ys, Stopped)
                                   else if \<not> has_next then (Request (mk offset) # map Yield ys, Stopped)
                                   else prepend (Request (mk offset) # map Yield ys)
                                          (asearch_loop validate mx mk rs (offset + length es) n')))))"

definition asearch ::
  "('raw \<Rightarrow> 'res option) \<Rightarrow> 'a search_args_scheme \<Rightarrow> string option http_result \<Rightarrow>
   'raw json_body http_result list \<Rightarrow> 'res event list \<times> outcome" where
  "asearch validate a token_response page_responses =
     (case get_vqd token_response of
        Inl e \<Rightarrow> ([], Raised e)
      | Inr token \<Rightarrow>
          asearch_loop validate (max_results a) (make_params a token) page_responses 0 0)"

text \<open>Reading a trace.\<close>

fun yields :: "'res event list \<Rightarrow> 'res list" where
  "yields [] = []"
| "yields (Request _ # evs) = yields evs"
| "yields (Yield r # evs) = r # yields evs"

fun requests :: "'res event list \<Rightarrow> params list" where
  "requests [] = []"
| "requests (Request ps # evs) = ps # requests evs"
| "requests (Yield _ # evs) = requests evs"

text \<open>The part of a trace that follows its \<open>k\<close>-th yield (the whole trace for \<open>k = 0\<close>).\<close>

fun after_yields :: "nat \<Rightarrow> 'res event list \<Rightarrow> 'res event list" where
  "after_yields 0 evs = evs"
| "after_yields (Suc k) [] = []"
| "after_yields (Suc k) (Request _ # evs) = after_yields (Suc k) evs"
| "after_yields (Suc k) (Yield _ # evs) = after_yields k evs"

subsection \<open>The page scraper \<open>get_images_from_page\<close> (client.py, lines 174--203)\<close>

text \<open>
  BeautifulSoup and \<open>urllib.parse.urljoin\<close> are libraries, taken as parameters:
  \<open>find_all_img markup\<close> is \<open>None\<close> when parsing raises, otherwise the value of
  \<open>img.get("src")\<close> for each tag of \<open>soup.find_all("img")\<close>, in the order of the document
  (\<open>None\<close> for a tag with no \<open>src\<close> attribute); \<open>urljoin base ref\<close> is \<open>None\<close> when
  \<open>urljoin\<close> raises.
\<close>

text \<open>\<open>[img.get("src") for img in img_tags if img.get("src")]\<close>: the tags whose \<open>src\<close> is
  truthy (present and not empty).\<close>

definition image_urls :: "string option list \<Rightarrow> string list" where
  "image_urls img_tags =
     map the (filter (\<lambda>src. src \<noteq> None \<and> src \<noteq> Some []) img_tags)"

text \<open>A list comprehension whose element expression can raise.\<close>

fun map_raising :: "('a \<Rightarrow> 'b option) \<Rightarrow> 'a list \<Rightarrow> 'b list option" where
  "map_raising g [] = Some []"
| "map_raising g (x # xs) =
     (case g x of
        None \<Rightarrow> None
      | Some y \<Rightarrow> (case map_raising g xs of None \<Rightarrow> None | Some ys \<Rightarrow> Some (y # ys)))"

definition get_images_from_page ::
  "(string \<Rightarrow> string option list option) \<Rightarrow> (string \<Rightarrow> string \<Rightarrow> string option) \<Rightarrow>
   string \<Rightarrow> string http_result \<Rightarrow> exn + string list" where
  "get_images_from_page find_all_img urljoin url r =
     (case r of
        RequestFailed \<Rightarrow> Inl NetworkError
      | Response ok markup \<Rightarrow>
          if \<not> ok then Inl HTTPStatusError
          else (case find_all_img markup of
                  None \<Rightarrow> Inl ParsingError
                | Some img_tags \<Rightarrow>
                    (case map_raising (urljoin url) (image_urls img_tags) of
                       None \<Rightarrow> Inl ParsingError
                     | Some absolute_image_urls \<Rightarrow> Inr absolute_image_urls)))"

subsection \<open>\<open>download\<close> (client.py, lines 205--232)\<close>

text \<open>The variable \<open>filename\<close> holds a string or, after line 218, the list that
  \<open>str.split\<close> returns.\<close>

datatype pyval = PyStr string | PyList "string list"

text \<open>\<open>not v\<close> is false exactly for a non-empty string or list.\<close>

fun truthy :: "pyval \<Rightarrow> bool" where
  "truthy (PyStr s) = (s \<noteq> [])"
| "truthy (PyList xs) = (xs \<noteq> [])"

text \<open>Lines 218--220: \<open>filename = url.split("/")[-1].split("?")\<close>, then the fallback
  when that value is falsy. (\<open>split_on\<close> never returns the empty list, so \<open>[-1]\<close> is
  the last piece.)\<close>

definition derived_filename :: "string \<Rightarrow> pyval" where
  "derived_filename url =
     (let filename = PyList (split_on CHR ''?'' (last (split_on CHR ''/'' url)))
      in if \<not> truthy filename then PyStr ''downloaded_image'' else filename)"

text \<open>\<open>os.path.join(output_dir, filename)\<close> (POSIX): a second argument that is not a
  string (or bytes, or path-like) raises \<open>TypeError\<close>.\<close>

fun os_path_join :: "string \<Rightarrow> pyval \<Rightarrow> exn + string" where
  "os_path_join a (PyList xs) = Inl TypeError"
| "os_path_join a (PyStr b) =
     (if b \<noteq> [] \<and> hd b = CHR ''/'' then Inr b
      else if a = [] \<or> last a = CHR ''/'' then Inr (a @ b)
      else Inr (a @ ''/'' @ b))"

text \<open>
  \<open>download\<close>, as a function of what the streamed GET gives (the chunks of
  \<open>response.aiter_bytes()\<close>); on success the result is the path written and the bytes
  written to it. \<open>os.path.join\<close> comes first (line 222), before the directory is made
  and before the request; \<open>os.makedirs\<close> and the writes are taken to succeed.
\<close>

definition download ::
  "string \<Rightarrow> string \<Rightarrow> string option \<Rightarrow> 'byte list list http_result \<Rightarrow>
   exn + (string \<times> 'byte list)" where
  "download url output_dir filename r =
     (let filename' =
            (case filename of
               None \<Rightarrow> derived_filename url
             | Some name \<Rightarrow> if name = [] then derived_filename url else PyStr name)
      in case os_path_join output_dir filename' of
           Inl e \<Rightarrow> Inl e
         | Inr output_path \<Rightarrow>
             (case r of
                RequestFailed \<Rightarrow> Inl NetworkError
              | Response ok chunks \<Rightarrow>
                  if \<not> ok then Inl HTTPStatusError
                  else Inr (output_path, concat chunks)))"

section \<open>Notions of the specification\<close>

subsection \<open>Letter case\<close>

text \<open>
  Strings that differ only in the case of their ASCII letters, said with the code
  points of the characters and without \<open>lower\<close>: an upper-case letter has a code point
  from 65 to 90, and its lower-case form is 32 higher.
\<close>

definition is_upper :: "char \<Rightarrow> bool" where
  "is_upper c = (65 \<le> (of_char c :: nat) \<and> (of_char c :: nat) \<le> 90)"

definition same_letter :: "char \<Rightarrow> char \<Rightarrow> bool" where
  "same_letter c d =
     (c = d \<or> (is_upper c \<and> (of_char d :: nat) = of_char c + 32)
            \<or> (is_upper d \<and> (of_char c :: nat) = of_char d + 32))"

definition same_ignoring_case :: "string \<Rightarrow> string \<Rightarrow> bool" where
  "same_ignoring_case s t = list_all2 same_letter s t"

subsection \<open>Filter fields\<close>

text \<open>A filter field is present when it is given and not the empty string.\<close>

definition present :: "string option \<Rightarrow> bool" where
  "present v = (v \<noteq> None \<and> v \<noteq> Some [])"

text \<open>The six fields with their keys, in the order of the specification.\<close>

definition filter_fields :: "'a search_args_scheme \<Rightarrow> (string \<times> string option) list" where
  "filter_fields a =
     [(''time'', timelimit a), (''size'', size_arg a), (''color'', color a),
      (''type'', type_image a), (''layout'', layout a), (''license'', license_image a)]"

text \<open>The renderings \<open>key:value\<close> of the present fields, in that order.\<close>

definition rendered_fields :: "'a search_args_scheme \<Rightarrow> string list" where
  "rendered_fields a =
     map (\<lambda>(k, v). k @ '':'' @ the v) (filter (\<lambda>(k, v). present v) (filter_fields a))"

text \<open>Stray separators: a comma at the start, at the end, or two in a row.\<close>

definition leading_comma :: "string \<Rightarrow> bool" where
  "leading_comma s = (s \<noteq> [] \<and> hd s = CHR '','')"

definition trailing_comma :: "string \<Rightarrow> bool" where
  "trailing_comma s = (s \<noteq> [] \<and> last s = CHR '','')"

fun doubled_comma :: "string \<Rightarrow> bool" where
  "doubled_comma (a # b # s) = ((a = CHR '','' \<and> b = CHR '','') \<or> doubled_comma (b # s))"
| "doubled_comma _ = False"

definition comma_free :: "string option \<Rightarrow> bool" where
  "comma_free v = (case v of None \<Rightarrow> True | Some x \<Rightarrow> CHR '','' \<notin> set x)"

text \<open>No value of a filter field contains a comma.\<close>

definition no_commas :: "'a search_args_scheme \<Rightarrow> bool" where
  "no_commas a = list_all comma_free (map snd (filter_fields a))"

subsection \<open>The token pattern\<close>

text \<open>
  The pattern \<open>vqd=['"]([a-zA-Z0-9-]+)['"]\<close> read as a description of strings: \<open>s\<close>
  starts with a match whose captured group is \<open>tok\<close>.
\<close>

definition vqd_match_at :: "string \<Rightarrow> string \<Rightarrow> bool" where
  "vqd_match_at s tok =
     (\<exists>q1 q2 rest. s = ''vqd='' @ [q1] @ tok @ [q2] @ rest \<and> is_quote q1 \<and> is_quote q2 \<and>
        tok \<noteq> [] \<and> list_all is_token_char tok)"

text \<open>The pattern matches somewhere in the body.\<close>

definition vqd_found :: "string \<Rightarrow> bool" where
  "vqd_found body = (\<exists>pre suf tok. body = pre @ suf \<and> vqd_match_at suf tok)"

text \<open>\<open>tok\<close> is the captured group of the first match in the body (the match that
  \<open>re.search\<close> reports): no match starts further left.\<close>

definition vqd_leftmost :: "string \<Rightarrow> string \<Rightarrow> bool" where
  "vqd_leftmost body tok =
     (\<exists>pre suf. body = pre @ suf \<and> vqd_match_at suf tok \<and>
        (\<forall>pre' suf' t. body = pre' @ suf' \<and> length pre' < length pre \<longrightarrow> \<not> vqd_match_at suf' t))"

subsection \<open>Pagination\<close>



subsection \<open>Example data\<close>


text \<open>A token response in which the pattern matches, with token \<open>3-99\<close>.\<close>

definition token_page :: "string option http_result" where
  "token_page = Response True (Some ''q(vqd='3-99');'')"

text \<open>The parameters of the page requests of \<open>asearch("cats")\<close> with that token.\<close>

definition cats_params :: "nat \<Rightarrow> params" where
  "cats_params = make_params (default_args ''cats'') ''3-99''"

text \<open>Stand-ins for the libraries of the scraper: a page with two image tags, the
  second with an empty \<open>src\<close>; a page with four image tags, the second without \<open>src\<close>
  and the fourth a repetition of the first; and a resolution of URLs that appends the
  reference to the base (what \<open>urljoin\<close> does for a base ending in \<open>/\<close> and a relative
  path).\<close>

definition two_tags :: "string \<Rightarrow> string option list option" where
  "two_tags markup = Some [Some ''a.png'', Some []]"

definition four_tags :: "string \<Rightarrow> string option list option" where
  "four_tags markup = Some [Some ''a.png'', None, Some ''b/c.png'', Some ''a.png'']"

definition concat_join :: "string \<Rightarrow> string \<Rightarrow> string option" where
  "concat_join base ref = Some (base @ ref)"

text \<open>The same resolution, except that it raises on the reference \<open>http://[\<close> (which
  \<open>urljoin\<close> rejects as an invalid IPv6 URL), and a page with two image tags of which the
  second has that source.\<close>

definition picky_join :: "string \<Rightarrow> string \<Rightarrow> string option" where
  "picky_join base ref = (if ref = ''http://['' then None else Some (base @ ref))"

definition bracket_tags :: "string \<Rightarrow> string option list option" where
  "bracket_tags markup = Some [Some ''a.png'', Some ''http://['']"

section \<open>Properties\<close>

subsection \<open>Safe-search code\<close>

lemma p_value_cases:
  "p_value s = (if lower s = ''on'' then ''1'' else if lower s = ''off'' then ''-2'' else ''-1'')"
  by (simp add: p_value_def safesearch_map_def)

lemma lower_char_idem: "lower_char (lower_char c) = lower_char c"
  by (simp add: lower_char_def)

lemma lower_idem: "lower (lower s) = lower s"
  by (simp add: lower_def lower_char_idem)

lemma upper_code_points: "map (of_char :: char \<Rightarrow> nat) ''ABCDEFGHIJKLMNOPQRSTUVWXYZ'' = [65..<91]"
  by (simp add: upt_rec_numeral)

lemma upper_in_table: "is_upper c \<Longrightarrow> c \<in> set ''ABCDEFGHIJKLMNOPQRSTUVWXYZ''"
proof -
  assume "is_upper c"
  then have "(of_char c :: nat) \<in> {65..<91}" by (auto simp: is_upper_def)
  then have "(of_char c :: nat) \<in> set [65..<91]" by (simp only: set_upt)
  then have "(of_char c :: nat) \<in> set (map of_char ''ABCDEFGHIJKLMNOPQRSTUVWXYZ'')"
    by (simp only: upper_code_points)
  then obtain d where d: "d \<in> set ''ABCDEFGHIJKLMNOPQRSTUVWXYZ''" and e: "(of_char c :: nat) = of_char d"
    by (auto simp only: set_map)
  from e have "c = d" by (metis char_of_char)
  with d show ?thesis by simp
qed

lemma of_char_inj: "(of_char c :: nat) = of_char d \<Longrightarrow> c = d"
  by (metis char_of_char)

lemma lower_char_upper:
  "is_upper c \<Longrightarrow> (of_char (lower_char c) :: nat) = of_char c + 32"
proof -
  assume "is_upper c"
  then have "c \<in> set ''ABCDEFGHIJKLMNOPQRSTUVWXYZ''" by (rule upper_in_table)
  then show ?thesis by (auto simp: lower_char_def)
qed

lemma lower_char_not_upper: "\<not> is_upper c \<Longrightarrow> lower_char c = c"
proof -
  assume n: "\<not> is_upper c"
  have "c \<notin> set ''ABCDEFGHIJKLMNOPQRSTUVWXYZ''"
  proof
    assume "c \<in> set ''ABCDEFGHIJKLMNOPQRSTUVWXYZ''"
    then have "is_upper c" by (auto simp: is_upper_def)
    with n show False by simp
  qed
  then show ?thesis by (simp add: lower_char_def)
qed

lemma lower_char_lower: "is_upper c \<Longrightarrow> (of_char d :: nat) = of_char c + 32 \<Longrightarrow> lower_char d = d"
  by (rule lower_char_not_upper) (simp add: is_upper_def)

lemma same_letter_lower: "same_letter c d \<Longrightarrow> lower_char c = lower_char d"
proof -
  assume "same_letter c d"
  then consider "c = d" | "is_upper c" "(of_char d :: nat) = of_char c + 32"
    | "is_upper d" "(of_char c :: nat) = of_char d + 32"
    unfolding same_letter_def by blast
  then show ?thesis
  proof cases
    case 1 then show ?thesis by simp
  next
    case 2
    then have "(of_char (lower_char c) :: nat) = of_char d" by (simp add: lower_char_upper)
    then have "lower_char c = d" by (rule of_char_inj)
    moreover have "lower_char d = d" using 2 by (rule lower_char_lower)
    ultimately show ?thesis by simp
  next
    case 3
    then have "(of_char (lower_char d) :: nat) = of_char c" by (simp add: lower_char_upper)
    then have "lower_char d = c" by (rule of_char_inj)
    moreover have "lower_char c = c" using 3 by (rule lower_char_lower)
    ultimately show ?thesis by simp
  qed
qed

lemma same_letter_lower_char: "same_letter c (lower_char c)"
proof (cases "is_upper c")
  case True
  then show ?thesis using lower_char_upper[of c] by (simp add: same_letter_def)
next
  case False
  then show ?thesis by (simp add: lower_char_not_upper same_letter_def)
qed

lemma same_ignoring_case_lower: "same_ignoring_case s t \<Longrightarrow> lower s = lower t"
  unfolding same_ignoring_case_def lower_def
  by (induction rule: list_all2_induct) (auto dest: same_letter_lower)

lemma same_ignoring_case_lower_self: "same_ignoring_case s (lower s)"
  unfolding same_ignoring_case_def lower_def
  by (induction s) (auto simp: same_letter_lower_char)

lemma lower_fixed: "list_all (\<lambda>c. \<not> is_upper c) t \<Longrightarrow> lower t = t"
  unfolding lower_def by (induction t) (auto simp: lower_char_not_upper)

lemma same_letter_sym: "same_letter c d \<Longrightarrow> same_letter d c"
  unfolding same_letter_def by blast

lemma lower_char_eq_same_letter: "lower_char c = lower_char d \<Longrightarrow> same_letter c d"
proof -
  assume e: "lower_char c = lower_char d"
  show ?thesis
  proof (cases "is_upper c")
    case True
    note uc = this
    show ?thesis
    proof (cases "is_upper d")
      case True
      from uc True e have "(of_char c :: nat) + 32 = of_char d + 32"
        by (metis lower_char_upper)
      then have "c = d" by (simp add: of_char_inj)
      then show ?thesis by (simp add: same_letter_def)
    next
      case False
      then have "lower_char d = d" by (rule lower_char_not_upper)
      with e uc have "(of_char d :: nat) = of_char c + 32" by (metis lower_char_upper)
      with uc show ?thesis by (simp add: same_letter_def)
    qed
  next
    case False
    then have lc: "lower_char c = c" by (rule lower_char_not_upper)
    show ?thesis
    proof (cases "is_upper d")
      case True
      with e lc have "(of_char c :: nat) = of_char d + 32" by (metis lower_char_upper)
      with True show ?thesis by (simp add: same_letter_def)
    next
      case False
      then have "lower_char d = d" by (rule lower_char_not_upper)
      with e lc show ?thesis by (simp add: same_letter_def)
    qed
  qed
qed

lemma lower_eq_same: "lower s = lower t \<Longrightarrow> same_ignoring_case s t"
  unfolding same_ignoring_case_def lower_def
proof (induction s arbitrary: t)
  case Nil then show ?case by simp
next
  case (Cons c s)
  then obtain d t' where t: "t = d # t'" by (cases t) auto
  with Cons show ?case by (auto simp: lower_char_eq_same_letter)
qed

lemma same_iff_lower: "same_ignoring_case s t \<longleftrightarrow> lower s = lower t"
  using lower_eq_same same_ignoring_case_lower by blast

lemma p_value_by_case_variant:
  "p_value s = (if same_ignoring_case s ''on'' then ''1''
                else if same_ignoring_case s ''off'' then ''-2'' else ''-1'')"
proof -
  have "lower ''on'' = ''on''" "lower ''off'' = ''off''" by (simp_all add: lower_def lower_char_def)
  then show ?thesis by (simp add: p_value_cases same_iff_lower)
qed

text \<open>
  C4, as stated, fails: \<open>ON\<close> is none of the three strings \<open>on\<close>, \<open>moderate\<close>, \<open>off\<close>,
  and its code is \<open>1\<close>, the code of \<open>on\<close>, not the default \<open>-1\<close>.
\<close>

theorem safesearch_other_string_counterexample:
  "''ON'' \<noteq> ''on'' \<and> ''ON'' \<noteq> ''moderate'' \<and> ''ON'' \<noteq> ''off'' \<and> p_value ''ON'' \<noteq> ''-1'' \<and>
   p_value ''ON'' = ''1''"
  by (simp add: p_value_cases lower_def lower_char_def)

text \<open>
  C4 (amended): the code sent as parameter \<open>p\<close> is \<open>1\<close> for \<open>on\<close> and for every string
  that differs from \<open>on\<close> only in the case of its letters, \<open>-2\<close> for \<open>off\<close> and for every
  string that differs from \<open>off\<close> only in the case of its letters, and \<open>-1\<close> for
  \<open>moderate\<close> and for every other string.
\<close>

theorem safesearch_code_table:
  "p_value ''on'' = ''1'' \<and> p_value ''moderate'' = ''-1'' \<and> p_value ''off'' = ''-2'' \<and>
   (same_ignoring_case s ''on'' \<longrightarrow> p_value s = ''1'') \<and>
   (same_ignoring_case s ''off'' \<longrightarrow> p_value s = ''-2'') \<and>
   (\<not> same_ignoring_case s ''on'' \<and> \<not> same_ignoring_case s ''off'' \<longrightarrow> p_value s = ''-1'')"
proof -
  have "p_value ''on'' = ''1''" "p_value ''moderate'' = ''-1''" "p_value ''off'' = ''-2''"
    by (simp_all add: p_value_cases lower_def lower_char_def)
  moreover have "\<not> same_ignoring_case s ''off''" if "same_ignoring_case s ''on''"
  proof
    assume "same_ignoring_case s ''off''"
    then have "length s = 3" by (auto simp: same_ignoring_case_def dest: list_all2_lengthD)
    moreover from that have "length s = 2"
      by (auto simp: same_ignoring_case_def dest: list_all2_lengthD)
    ultimately show False by simp
  qed
  ultimately show ?thesis using p_value_by_case_variant [of s] by auto
qed

theorem safesearch_code_table_witness:
  "same_ignoring_case ''ON'' ''on'' \<and> p_value ''ON'' = ''1'' \<and>
   same_ignoring_case ''oFf'' ''off'' \<and> p_value ''oFf'' = ''-2'' \<and>
   \<not> same_ignoring_case ''Strict'' ''on'' \<and> \<not> same_ignoring_case ''Strict'' ''off'' \<and>
   p_value ''Strict'' = ''-1''"
proof -
  have h1: "same_ignoring_case ''ON'' ''on''"
    by (simp add: same_ignoring_case_def same_letter_def is_upper_def)
  have h2: "same_ignoring_case ''oFf'' ''off''"
    by (simp add: same_ignoring_case_def same_letter_def is_upper_def)
  have h3: "\<not> same_ignoring_case ''Strict'' ''on'' \<and> \<not> same_ignoring_case ''Strict'' ''off''"
    by (simp add: same_ignoring_case_def)
  from safesearch_code_table [of "''ON''"] safesearch_code_table [of "''oFf''"]
       safesearch_code_table [of "''Strict''"] h1 h2 h3
  show ?thesis by blast
qed

text \<open>
  C10: the safe-search mapping is case-insensitive. Two strings that differ only in the
  case of their letters get the same code; \<open>lower s\<close> is such a variant of \<open>s\<close>, the code
  of \<open>s\<close> is the code of \<open>lower s\<close> and is decided by \<open>lower s\<close> alone; \<open>ON\<close> gives \<open>1\<close>,
  \<open>OFF\<close> gives \<open>-2\<close> and \<open>Moderate\<close> gives \<open>-1\<close>.
\<close>

theorem safesearch_case_insensitive:
  "(same_ignoring_case s t \<longrightarrow> p_value s = p_value t) \<and>
   same_ignoring_case s (lower s) \<and>
   p_value s = p_value (lower s) \<and>
   p_value s = (if lower s = ''on'' then ''1'' else if lower s = ''off'' then ''-2'' else ''-1'') \<and>
   p_value ''ON'' = ''1'' \<and> p_value ''OFF'' = ''-2'' \<and> p_value ''Moderate'' = ''-1''"
proof -
  have v: "p_value s = p_value t" if "same_ignoring_case s t"
    using same_ignoring_case_lower [OF that] by (simp add: p_value_def)
  have "p_value s = p_value (lower s)"
    by (simp add: p_value_def lower_idem)
  moreover have "p_value ''ON'' = ''1''" "p_value ''OFF'' = ''-2''" "p_value ''Moderate'' = ''-1''"
    by (simp_all add: p_value_cases lower_def lower_char_def)
  ultimately show ?thesis
    using p_value_cases [of s] v same_ignoring_case_lower_self [of s] by simp
qed

theorem safesearch_case_insensitive_witness:
  "same_ignoring_case ''oN'' ''On'' \<and> p_value ''oN'' = p_value ''On'' \<and>
   same_ignoring_case ''MODERATE'' ''moderate'' \<and> p_value ''MODERATE'' = p_value ''moderate''"
proof -
  have h1: "same_ignoring_case ''oN'' ''On''"
    by (simp add: same_ignoring_case_def same_letter_def is_upper_def)
  have h2: "same_ignoring_case ''MODERATE'' ''moderate''"
    by (simp add: same_ignoring_case_def same_letter_def is_upper_def)
  from safesearch_case_insensitive [of "''oN''" "''On''"]
       safesearch_case_insensitive [of "''MODERATE''" "''moderate''"] h1 h2
  show ?thesis by blast
qed

subsection \<open>Filter string\<close>

lemma filters_as_map: "filters a = map (\<lambda>(k, v). filter_entry k v) (filter_fields a)"
  by (simp add: filters_def filter_fields_def)

lemma filter_entries_rendered:
  "filter (\<lambda>s. s \<noteq> []) (map (\<lambda>(k, v). filter_entry k v) kvs) =
   map (\<lambda>(k, v). k @ '':'' @ the v) (filter (\<lambda>(k, v). present v) kvs)"
  by (induction kvs) (auto simp: filter_entry_def present_def split: option.splits)

lemma f_value_rendered: "f_value a = join '','' (rendered_fields a)"
  by (simp add: f_value_def filters_as_map filter_entries_rendered rendered_fields_def)

lemma join_hd: "xs \<noteq> [] \<Longrightarrow> hd xs \<noteq> [] \<Longrightarrow> join sep xs \<noteq> [] \<and> hd (join sep xs) = hd (hd xs)"
  by (induction sep xs rule: join.induct) auto

lemma join_nonempty_iff: "\<forall>x\<in>set xs. x \<noteq> [] \<Longrightarrow> (join sep xs = []) = (xs = [])"
  by (induction sep xs rule: join.induct) auto

lemma join_last: "\<forall>x\<in>set xs. x \<noteq> [] \<Longrightarrow> xs \<noteq> [] \<Longrightarrow> last (join sep xs) = last (last xs)"
  by (induction sep xs rule: join.induct) (auto simp: join_nonempty_iff)

lemma doubled_comma_append:
  "CHR '','' \<notin> set x \<Longrightarrow> x \<noteq> [] \<Longrightarrow> y \<noteq> [] \<Longrightarrow> hd y \<noteq> CHR '','' \<Longrightarrow> \<not> doubled_comma y \<Longrightarrow>
   \<not> doubled_comma (x @ '','' @ y)"
proof (induction x)
  case Nil then show ?case by simp
next
  case (Cons c x)
  show ?case
  proof (cases x)
    case Nil
    with Cons.prems show ?thesis by (cases y) auto
  next
    case (Cons d x')
    with Cons.prems Cons.IH show ?thesis by auto
  qed
qed

lemma doubled_comma_free: "CHR '','' \<notin> set x \<Longrightarrow> \<not> doubled_comma x"
  by (induction x rule: doubled_comma.induct) auto

lemma join_no_doubled:
  "\<forall>x\<in>set xs. x \<noteq> [] \<and> CHR '','' \<notin> set x \<Longrightarrow> \<not> doubled_comma (join '','' xs)"
proof (induction "'',''" xs rule: join.induct)
  case 1 then show ?case by simp
next
  case (2 x) then show ?case by (simp add: doubled_comma_free)
next
  case (3 x y ys)
  have ne: "join '','' (y # ys) \<noteq> []" and h: "hd (join '','' (y # ys)) = hd y"
    using join_hd[of "y # ys" "'',''"] 3(2) by auto
  have "hd y \<noteq> CHR '',''" using 3(2) by (cases y) auto
  with 3 ne h show ?case
    using doubled_comma_append[of x "join '','' (y # ys)"] by auto
qed

lemma rendered_ok:
  assumes "\<forall>v\<in>set (map snd (filter_fields a)). comma_free v"
  shows "\<forall>x\<in>set (rendered_fields a). x \<noteq> [] \<and> CHR '','' \<notin> set x"
proof
  fix x assume "x \<in> set (rendered_fields a)"
  then obtain k v where kv: "(k, v) \<in> set (filter_fields a)" and p: "present v"
    and x: "x = k @ '':'' @ the v"
    by (auto simp: rendered_fields_def)
  from kv have k: "k \<in> {''time'', ''size'', ''color'', ''type'', ''layout'', ''license''}"
    by (auto simp: filter_fields_def)
  from kv assms have "comma_free v" by force
  with p have "CHR '','' \<notin> set (the v)" by (auto simp: comma_free_def present_def)
  with k x show "x \<noteq> [] \<and> CHR '','' \<notin> set x" by auto
qed

lemma rendered_hd:
  assumes "x \<in> set (rendered_fields a)"
  shows "x \<noteq> [] \<and> hd x \<noteq> CHR '',''"
proof -
  from assms obtain k v where kv: "(k, v) \<in> set (filter_fields a)" and x: "x = k @ '':'' @ the v"
    by (auto simp: rendered_fields_def)
  from kv have "k \<in> {''time'', ''size'', ''color'', ''type'', ''layout'', ''license''}"
    by (auto simp: filter_fields_def)
  with x show ?thesis by auto
qed

lemma f_value_no_leading: "\<not> leading_comma (f_value a)"
proof (cases "rendered_fields a")
  case Nil then show ?thesis by (simp add: f_value_rendered leading_comma_def)
next
  case (Cons x xs)
  then have "x \<noteq> [] \<and> hd x \<noteq> CHR '',''" using rendered_hd[of x a] by simp
  then show ?thesis using join_hd[of "x # xs" "'',''"] Cons
    by (simp add: f_value_rendered leading_comma_def)
qed

lemma f_value_no_trailing:
  assumes "\<forall>v\<in>set (map snd (filter_fields a)). comma_free v"
  shows "\<not> trailing_comma (f_value a)"
proof (cases "rendered_fields a = []")
  case True then show ?thesis by (simp add: f_value_rendered trailing_comma_def)
next
  case False
  have ok: "\<forall>x\<in>set (rendered_fields a). x \<noteq> [] \<and> CHR '','' \<notin> set x" using rendered_ok[OF assms] .
  then have ne: "\<forall>x\<in>set (rendered_fields a). x \<noteq> []" by blast
  have "last (rendered_fields a) \<in> set (rendered_fields a)" using False by simp
  then have "last (last (rendered_fields a)) \<noteq> CHR '',''" using ok
    by (metis last_in_set)
  then show ?thesis using join_last[OF ne False, of "'',''"]
    by (simp add: f_value_rendered trailing_comma_def)
qed

lemma f_value_no_doubled:
  assumes "\<forall>v\<in>set (map snd (filter_fields a)). comma_free v"
  shows "\<not> doubled_comma (f_value a)"
  using join_no_doubled [OF rendered_ok [OF assms]] by (simp add: f_value_rendered)

text \<open>
  C5, as stated, fails in two ways. A value that contains commas brings them into the
  filter string: \<open>size = "a,,b"\<close> gives \<open>size:a,,b\<close>, which has a doubled comma. And a
  field given as the empty string is left out as if it were absent: \<open>time = ""\<close> gives
  the empty filter string, not \<open>time:\<close>.
\<close>

theorem filter_string_counterexample:
  "f_value ((default_args ''cats'')\<lparr>size_arg := Some ''a,,b''\<rparr>) = ''size:a,,b'' \<and>
   doubled_comma (f_value ((default_args ''cats'')\<lparr>size_arg := Some ''a,,b''\<rparr>)) \<and>
   f_value ((default_args ''cats'')\<lparr>timelimit := Some []\<rparr>) = []"
  by (simp add: f_value_def filters_def filter_entry_def default_args_def)

text \<open>
  C5 (amended): for every combination of filter fields, the filter string is the
  comma-join of the renderings \<open>key:value\<close> of exactly the fields that are given and
  not empty, in the order time, size, color, type, layout, license. It never starts
  with a comma, and when no value contains a comma it has no trailing and no doubled
  comma. With \<open>time = "Week"\<close>, \<open>size = "Large"\<close> and the other fields absent it is
  \<open>time:Week,size:Large\<close>.
\<close>

theorem filter_string_present_fields:
  "f_value a = join '','' (rendered_fields a) \<and>
   \<not> leading_comma (f_value a) \<and>
   (no_commas a \<longrightarrow> \<not> trailing_comma (f_value a) \<and> \<not> doubled_comma (f_value a)) \<and>
   (timelimit a = Some ''Week'' \<and> size_arg a = Some ''Large'' \<and> color a = None \<and>
    type_image a = None \<and> layout a = None \<and> license_image a = None \<longrightarrow>
      f_value a = ''time:Week,size:Large'')"
proof -
  have ex: "f_value a = ''time:Week,size:Large''"
    if "timelimit a = Some ''Week'' \<and> size_arg a = Some ''Large'' \<and> color a = None \<and>
        type_image a = None \<and> layout a = None \<and> license_image a = None"
    using that by (simp add: f_value_def filters_def filter_entry_def)
  have "\<not> trailing_comma (f_value a) \<and> \<not> doubled_comma (f_value a)" if "no_commas a"
  proof -
    from that have "\<forall>v\<in>set (map snd (filter_fields a)). comma_free v"
      unfolding no_commas_def list_all_iff .
    then show ?thesis using f_value_no_trailing f_value_no_doubled by blast
  qed
  with ex show ?thesis
    using f_value_rendered [of a] f_value_no_leading [of a] by blast
qed

theorem filter_string_present_fields_witness:
  "no_commas ((default_args ''cats'')\<lparr>timelimit := Some ''Week'', size_arg := Some ''Large''\<rparr>) \<and>
   \<not> trailing_comma
       (f_value ((default_args ''cats'')\<lparr>timelimit := Some ''Week'', size_arg := Some ''Large''\<rparr>)) \<and>
   \<not> doubled_comma
       (f_value ((default_args ''cats'')\<lparr>timelimit := Some ''Week'', size_arg := Some ''Large''\<rparr>)) \<and>
   f_value ((default_args ''cats'')\<lparr>timelimit := Some ''Week'', size_arg := Some ''Large''\<rparr>) =
     ''time:Week,size:Large''"
proof -
  let ?a = "(default_args ''cats'')\<lparr>timelimit := Some ''Week'', size_arg := Some ''Large''\<rparr>"
  have h: "no_commas ?a"
    by (simp add: no_commas_def filter_fields_def comma_free_def default_args_def)
  have e: "timelimit ?a = Some ''Week'' \<and> size_arg ?a = Some ''Large'' \<and> color ?a = None \<and>
           type_image ?a = None \<and> layout ?a = None \<and> license_image ?a = None"
    by (simp add: default_args_def)
  from filter_string_present_fields [of ?a] h e show ?thesis by blast
qed

subsection \<open>Token fetch\<close>

lemma strip_prefix_iff: "strip_prefix p s = Some r \<longleftrightarrow> s = p @ r"
  by (induction p s rule: strip_prefix.induct) auto

lemma strip_prefix_None: "strip_prefix p s = None \<longleftrightarrow> (\<forall>r. s \<noteq> p @ r)"
  by (induction p s rule: strip_prefix.induct) auto

lemma quote_not_token: "is_quote q \<Longrightarrow> \<not> is_token_char q"
  by (auto simp: is_quote_def is_token_char_def)

lemma match_at_sound: "match_at s = Some tok \<Longrightarrow> vqd_match_at s tok"
proof -
  assume m: "match_at s = Some tok"
  from m obtain r where r: "strip_prefix ''vqd='' s = Some r"
    by (auto simp: match_at_def split: option.splits)
  with m obtain q t where rt: "r = q # t" and q: "is_quote q"
    by (auto simp: match_at_def split: list.splits if_splits)
  from m r rt q have tk: "takeWhile is_token_char t \<noteq> []" and tok: "tok = takeWhile is_token_char t"
    by (auto simp: match_at_def split: list.splits if_splits)
  from m r rt q tk obtain q' rest where d: "dropWhile is_token_char t = q' # rest" and q': "is_quote q'"
    by (auto simp: match_at_def split: list.splits if_splits)
  have "t = tok @ q' # rest" using takeWhile_dropWhile_id[of is_token_char t] tok d by simp
  moreover have "s = ''vqd='' @ r" using r by (simp only: strip_prefix_iff)
  moreover have "list_all is_token_char tok" unfolding tok list_all_iff
    by (auto dest: set_takeWhileD)
  ultimately show ?thesis using rt q q' tk tok
    unfolding vqd_match_at_def by auto
qed

lemma match_at_complete: "vqd_match_at s tok \<Longrightarrow> match_at s = Some tok"
proof -
  assume "vqd_match_at s tok"
  then obtain q1 q2 rest where s: "s = ''vqd='' @ [q1] @ tok @ [q2] @ rest"
    and q1: "is_quote q1" and q2: "is_quote q2" and ne: "tok \<noteq> []" and al: "list_all is_token_char tok"
    unfolding vqd_match_at_def by blast
  have sp: "strip_prefix ''vqd='' s = Some (q1 # tok @ q2 # rest)"
    unfolding strip_prefix_iff s by simp
  have nq: "\<not> is_token_char q2" using q2 by (rule quote_not_token)
  have al': "\<And>x. x \<in> set tok \<Longrightarrow> is_token_char x" using al by (simp add: list_all_iff)
  have tw: "takeWhile is_token_char (tok @ q2 # rest) = tok"
    using al' nq by (simp add: takeWhile_append2)
  have dw: "dropWhile is_token_char (tok @ q2 # rest) = q2 # rest"
    using al' nq by (simp add: dropWhile_append2)
  show ?thesis unfolding match_at_def sp using q1 q2 ne tw dw by simp
qed

lemma match_at_iff: "match_at s = Some tok \<longleftrightarrow> vqd_match_at s tok"
  using match_at_sound match_at_complete by blast

lemma match_at_nil: "match_at [] = None"
  by (simp add: match_at_def)

lemma re_search_leftmost: "re_search s = Some tok \<longleftrightarrow> vqd_leftmost s tok"
proof (induction s)
  case Nil
  have "\<not> vqd_match_at [] t" for t using match_at_nil match_at_iff[of "[]" t] by simp
  then show ?case by (simp add: vqd_leftmost_def match_at_nil)
next
  case (Cons c cs)
  show ?case
  proof (cases "match_at (c # cs)")
    case (Some t)
    have "vqd_leftmost (c # cs) tok \<longleftrightarrow> tok = t"
    proof
      assume "vqd_leftmost (c # cs) tok"
      then obtain pre suf where b: "c # cs = pre @ suf" and m: "vqd_match_at suf tok"
        and l: "\<forall>pre' suf' t. c # cs = pre' @ suf' \<and> length pre' < length pre \<longrightarrow> \<not> vqd_match_at suf' t"
        unfolding vqd_leftmost_def by blast
      show "tok = t"
      proof (cases pre)
        case Nil
        with b m have "match_at (c # cs) = Some tok" by (simp add: match_at_iff)
        with Some show ?thesis by simp
      next
        case (Cons x xs)
        then have "c # cs = [] @ (c # cs) \<and> length ([] :: string) < length pre" by simp
        with l have "\<not> vqd_match_at (c # cs) t" by blast
        with Some show ?thesis by (simp add: match_at_iff)
      qed
    next
      assume "tok = t"
      with Some have "vqd_match_at (c # cs) tok" by (simp add: match_at_iff)
      then show "vqd_leftmost (c # cs) tok"
        unfolding vqd_leftmost_def by (intro exI[of _ "[]"] exI[of _ "c # cs"]) simp
    qed
    with Some show ?thesis by auto
  next
    case None
    then have nm: "\<not> vqd_match_at (c # cs) t" for t using match_at_iff[of "c # cs" t] by simp
    have "vqd_leftmost (c # cs) tok \<longleftrightarrow> vqd_leftmost cs tok"
    proof
      assume "vqd_leftmost (c # cs) tok"
      then obtain pre suf where b: "c # cs = pre @ suf" and m: "vqd_match_at suf tok"
        and l: "\<forall>pre' suf' t. c # cs = pre' @ suf' \<and> length pre' < length pre \<longrightarrow> \<not> vqd_match_at suf' t"
        unfolding vqd_leftmost_def by blast
      from b m nm obtain pre1 where p: "pre = c # pre1" by (cases pre) auto
      with b have b1: "cs = pre1 @ suf" by simp
      have "\<not> vqd_match_at suf' t" if "cs = pre' @ suf'" "length pre' < length pre1" for pre' suf' t
      proof -
        from that have "c # cs = (c # pre') @ suf'" "length (c # pre') < length pre" using p by auto
        with l show ?thesis by blast
      qed
      with b1 m show "vqd_leftmost cs tok" unfolding vqd_leftmost_def by blast
    next
      assume "vqd_leftmost cs tok"
      then obtain pre suf where b: "cs = pre @ suf" and m: "vqd_match_at suf tok"
        and l: "\<forall>pre' suf' t. cs = pre' @ suf' \<and> length pre' < length pre \<longrightarrow> \<not> vqd_match_at suf' t"
        unfolding vqd_leftmost_def by blast
      have "\<not> vqd_match_at suf' t" if h: "c # cs = pre' @ suf'" "length pre' < length (c # pre)" for pre' suf' t
      proof (cases pre')
        case Nil
        with h nm show ?thesis by simp
      next
        case (Cons x xs)
        with h have "cs = xs @ suf'" "length xs < length pre" by auto
        with l show ?thesis by blast
      qed
      moreover have "c # cs = (c # pre) @ suf" using b by simp
      ultimately show "vqd_leftmost (c # cs) tok" using m unfolding vqd_leftmost_def by blast
    qed
    with None Cons.IH show ?thesis by simp
  qed
qed

lemma re_search_None: "re_search s = None \<longleftrightarrow> \<not> vqd_found s"
proof (induction s)
  case Nil
  have "\<not> vqd_match_at [] t" for t using match_at_nil match_at_iff[of "[]" t] by simp
  then show ?case by (simp add: vqd_found_def match_at_nil)
next
  case (Cons c cs)
  show ?case
  proof (cases "match_at (c # cs)")
    case (Some t)
    then have "vqd_match_at (c # cs) t" by (simp add: match_at_iff)
    then have "vqd_found (c # cs)" unfolding vqd_found_def by (metis append_Nil)
    with Some show ?thesis by simp
  next
    case None
    then have nm: "\<not> vqd_match_at (c # cs) t" for t using match_at_iff[of "c # cs" t] by simp
    have "vqd_found (c # cs) \<longleftrightarrow> vqd_found cs"
    proof
      assume "vqd_found (c # cs)"
      then obtain pre suf tok where b: "c # cs = pre @ suf" and m: "vqd_match_at suf tok"
        unfolding vqd_found_def by blast
      from b m nm obtain pre1 where "pre = c # pre1" by (cases pre) auto
      with b have "cs = pre1 @ suf" by simp
      with m show "vqd_found cs" unfolding vqd_found_def by blast
    next
      assume "vqd_found cs"
      then obtain pre suf tok where b: "cs = pre @ suf" and m: "vqd_match_at suf tok"
        unfolding vqd_found_def by blast
      then have "c # cs = (c # pre) @ suf" by simp
      with m show "vqd_found (c # cs)" unfolding vqd_found_def by blast
    qed
    with None Cons.IH show ?thesis by simp
  qed
qed

text \<open>
  C6: the token fetch scans the body of a response with a success status
  (\<open>get_vqd (Response True body) = vqd_from_body body\<close>). For every body in which the
  pattern matches, it returns the captured group of the first match (a match exists
  exactly when a first match does); for every body in which the pattern matches
  nowhere, and for a body that cannot be read, it fails with \<open>VQDTokenError\<close>.
\<close>

theorem get_vqd_captured_group:
  "get_vqd (Response True b) = vqd_from_body b \<and>
   (vqd_leftmost body tok \<longrightarrow> vqd_from_body (Some body) = Inr tok) \<and>
   (vqd_found body \<longrightarrow> (\<exists>t. vqd_leftmost body t \<and> vqd_from_body (Some body) = Inr t)) \<and>
   (\<not> vqd_found body \<longrightarrow> vqd_from_body (Some body) = Inl VQDTokenError) \<and>
   vqd_from_body None = Inl VQDTokenError"
proof -
  have a: "vqd_from_body (Some body) = Inr tok" if "vqd_leftmost body tok"
    using that by (simp add: vqd_from_body_def re_search_leftmost [symmetric])
  have b: "\<exists>t. vqd_leftmost body t \<and> vqd_from_body (Some body) = Inr t" if "vqd_found body"
  proof -
    from that have "re_search body \<noteq> None" by (simp add: re_search_None)
    then obtain t where t: "re_search body = Some t" by blast
    then have "vqd_leftmost body t" by (simp add: re_search_leftmost)
    moreover from t have "vqd_from_body (Some body) = Inr t"
      by (simp add: vqd_from_body_def)
    ultimately show ?thesis by blast
  qed
  have c: "vqd_from_body (Some body) = Inl VQDTokenError" if "\<not> vqd_found body"
    using that by (simp add: vqd_from_body_def re_search_None [symmetric])
  have d: "vqd_from_body None = Inl VQDTokenError"
    by (simp add: vqd_from_body_def)
  have e: "get_vqd (Response True b) = vqd_from_body b"
    by (simp add: get_vqd_def)
  from a b c d e show ?thesis by blast
qed

theorem get_vqd_captured_group_witness:
  "vqd_leftmost ''q(vqd='3-99');'' ''3-99'' \<and>
   get_vqd (Response True (Some ''q(vqd='3-99');'')) = Inr ''3-99'' \<and>
   vqd_found ''q(vqd='3-99');'' \<and>
   \<not> vqd_found ''q(vqd=3-99);'' \<and>
   get_vqd (Response True (Some ''q(vqd=3-99);'')) = Inl VQDTokenError"
proof -
  have m: "re_search ''q(vqd='3-99');'' = Some ''3-99''"
    by (simp add: match_at_def is_quote_def is_token_char_def)
  have h1: "vqd_leftmost ''q(vqd='3-99');'' ''3-99''"
    using m by (simp only: re_search_leftmost)
  have h2: "vqd_found ''q(vqd='3-99');''"
    using m re_search_None [of "''q(vqd='3-99');''"] by simp
  have n: "re_search ''q(vqd=3-99);'' = None"
    by (simp add: match_at_def is_quote_def is_token_char_def)
  have h3: "\<not> vqd_found ''q(vqd=3-99);''"
    using n re_search_None [of "''q(vqd=3-99);''"] by simp
  from get_vqd_captured_group [of "Some ''q(vqd='3-99');''" "''q(vqd='3-99');''" "''3-99''"] h1
  have w1: "get_vqd (Response True (Some ''q(vqd='3-99');'')) = Inr ''3-99''"
    by simp
  from get_vqd_captured_group [of "Some ''q(vqd=3-99);''" "''q(vqd=3-99);''" "''3-99''"] h3
  have w2: "get_vqd (Response True (Some ''q(vqd=3-99);'')) = Inl VQDTokenError"
    by simp
  from h1 w1 h2 h3 w2 show ?thesis by blast
qed

text \<open>
  C2 on the code: a response whose status is not a success makes \<open>raise_for_status\<close>
  raise \<open>HTTPStatusError\<close>, which the handlers for \<open>httpx.RequestError\<close> do not catch; the
  token fetch, the page request, the scraper and the download all end with
  \<open>HTTPStatusError\<close>, not with \<open>NetworkError\<close>, while a request that cannot complete
  gives \<open>NetworkError\<close>.
\<close>

theorem non_success_status_is_not_network_error:
  "get_vqd (Response False body) = Inl HTTPStatusError \<and>
   get_vqd RequestFailed = Inl NetworkError \<and>
   asearch_loop validate mx mk (Response False page # rs) offset n =
     ([Request (mk offset)], Raised HTTPStatusError) \<and>
   asearch_loop validate mx mk (RequestFailed # rs) offset n =
     ([Request (mk offset)], Raised NetworkError) \<and>
   download url output_dir (Some ''pic.jpg'') (Response False chunks) = Inl HTTPStatusError \<and>
   download url output_dir (Some ''pic.jpg'') RequestFailed = Inl NetworkError"
  by (simp add: get_vqd_def download_def)

subsection \<open>The generator\<close>

lemma for_results_step:
  "for_results validate mx (e # es) n =
     (if cap_reached mx n then ([], n, Returned)
      else (case validate e of
              None \<Rightarrow> for_results validate mx es n
            | Some r \<Rightarrow>
                (r # fst (for_results validate mx es (n + 1)),
                 fst (snd (for_results validate mx es (n + 1))),
                 snd (snd (for_results validate mx es (n + 1))))))"
  by (simp split: prod.splits option.splits)

lemma for_results_yields:
  "fst (for_results validate mx es n) =
     (case mx of None \<Rightarrow> List.map_filter validate es
      | Some m \<Rightarrow> take (nat (m - int n)) (List.map_filter validate es))"
proof (induction es arbitrary: n)
  case Nil
  then show ?case by (simp add: List.map_filter_simps split: option.splits)
next
  case (Cons e es)
  show ?case
  proof (cases mx)
    case None
    then show ?thesis using Cons.IH
      by (simp add: for_results_step cap_reached_def List.map_filter_simps
               del: for_results.simps(2) split: option.splits)
  next
    case (Some m)
    show ?thesis
    proof (cases "int n \<ge> m")
      case True
      then show ?thesis using Some by (simp add: cap_reached_def)
    next
      case False
      then have s: "nat (m - int n) = Suc (nat (m - int (n + 1)))" by simp
      have nc: "\<not> cap_reached mx n" using Some False by (simp add: cap_reached_def)
      show ?thesis
      proof (cases "validate e")
        case None
        then show ?thesis using Some nc Cons.IH[of n]
          by (simp add: for_results_step List.map_filter_simps del: for_results.simps(2))
      next
        case (Some r)
        have "fst (for_results validate mx (e # es) n) = r # fst (for_results validate mx es (n + 1))"
          using Some nc by (simp add: for_results_step del: for_results.simps(2))
        also have "\<dots> = r # take (nat (m - int (n + 1))) (List.map_filter validate es)"
          using Cons.IH[of "n + 1"] \<open>mx = Some m\<close> by simp
        also have "\<dots> = take (nat (m - int n)) (List.map_filter validate (e # es))"
          unfolding s using Some by (simp add: List.map_filter_simps)
        finally show ?thesis using \<open>mx = Some m\<close> by simp
      qed
    qed
  qed
qed

lemma for_results_count:
  "fst (snd (for_results validate mx es n)) = n + length (fst (for_results validate mx es n))"
  by (induction es arbitrary: n)
     (simp_all add: for_results_step del: for_results.simps(2) split: option.splits)



lemma yields_append: "yields (xs @ ys) = yields xs @ yields ys"
  by (induction xs rule: yields.induct) auto

lemma yields_map_Yield: "yields (map Yield ys) = ys"
  by (induction ys) auto



lemma after_yields_map_Yield:
  "length ys \<le> k \<Longrightarrow> after_yields k (map Yield ys @ evs) = after_yields (k - length ys) evs"
proof (induction ys arbitrary: k)
  case Nil then show ?case by simp
next
  case (Cons y ys)
  then obtain k' where "k = Suc k'" by (cases k) auto
  with Cons show ?case by simp
qed

lemma for_results_length_le:
  "length (fst (for_results validate (Some m) es n)) \<le> nat (m - int n)"
  by (simp add: for_results_yields)

lemma asearch_loop_yield_bound:
  "length (yields (fst (asearch_loop validate (Some m) mk rs offset n))) \<le> nat (m - int n)"
proof (induction rs arbitrary: offset n)
  case Nil then show ?case by simp
next
  case (Cons r rs)
  show ?case
  proof (cases r)
    case RequestFailed then show ?thesis by simp
  next
    case (Response ok body)
    show ?thesis
    proof (cases "ok \<and> (\<exists>es hn. body = JsonDict (Entries es) hn \<and> es \<noteq> [])")
      case False
      then show ?thesis using Response
        by (auto split: json_body.splits results_value.splits)
    next
      case True
      then obtain es hn where b: "body = JsonDict (Entries es) hn" and ne: "es \<noteq> []" and ok: ok by blast
      obtain ys n' ex where f: "for_results validate (Some m) es n = (ys, n', ex)"
        by (cases "for_results validate (Some m) es n") auto
      have l: "length ys \<le> nat (m - int n)" using for_results_length_le[of validate m es n] f by simp
      have c: "n' = n + length ys" using for_results_count[of validate "Some m" es n] f by simp
      have ih: "length (yields (fst (asearch_loop validate (Some m) mk rs (offset + length es) n'))) \<le> nat (m - int n')"
        by (rule Cons.IH)
      show ?thesis using Response b ne ok f l c ih
        by (auto simp: prepend_def yields_append yields_map_Yield)
    qed
  qed
qed

lemma asearch_loop_requests_after_cap:
  "length (requests (after_yields (nat (m - int n))
       (fst (asearch_loop validate (Some m) mk rs offset n)))) \<le> 1"
proof (induction rs arbitrary: offset n)
  case Nil
  then show ?case by (cases "nat (m - int n)") auto
next
  case (Cons r rs)
  let ?k = "nat (m - int n)"
  have short: "length (requests (after_yields ?k [Request p])) \<le> 1" for p :: params
    by (cases ?k) auto
  show ?case
  proof (cases r)
    case RequestFailed then show ?thesis using short by simp
  next
    case (Response ok body)
    show ?thesis
    proof (cases "ok \<and> (\<exists>es hn. body = JsonDict (Entries es) hn \<and> es \<noteq> [])")
      case False
      then show ?thesis using Response short
        by (auto split: json_body.splits results_value.splits)
    next
      case True
      then obtain es hn where b: "body = JsonDict (Entries es) hn" and ne: "es \<noteq> []" and ok: ok by blast
      obtain ys n' ex where f: "for_results validate (Some m) es n = (ys, n', ex)"
        by (cases "for_results validate (Some m) es n") auto
      have l: "length ys \<le> ?k" using for_results_length_le[of validate m es n] f by simp
      have c: "n' = n + length ys" using for_results_count[of validate "Some m" es n] f by simp
      show ?thesis
      proof (cases ?k)
        case 0
        then have "cap_reached (Some m) n" by (simp add: cap_reached_def)
        with ne have "for_results validate (Some m) es n = ([], n, Returned)" by (cases es) auto
        then show ?thesis using Response b ne ok 0 by simp
      next
        case (Suc k')
        have k: "?k - length ys = nat (m - int n')" using c l by simp
        have ih: "length (requests (after_yields (nat (m - int n'))
               (fst (asearch_loop validate (Some m) mk rs (offset + length es) n')))) \<le> 1"
          by (rule Cons.IH)
        have e: "after_yields ?k (Request p # map Yield ys @ evs) = after_yields (nat (m - int n')) evs"
          for p evs
          using Suc after_yields_map_Yield[OF l, of evs] k by simp
        have e0: "after_yields ?k (Request p # map Yield ys) = after_yields (nat (m - int n')) []"
          for p using e[of p "[]"] by simp
        have z: "length (requests (after_yields j [])) \<le> 1" for j
          by (cases j) auto
        show ?thesis using Response b ne ok f ih e e0 z
          by (auto simp: prepend_def simp del: after_yields.simps)
      qed
    qed
  qed
qed



lemma get_vqd_token_page: "get_vqd token_page = Inr ''3-99''"
  by (simp add: token_page_def get_vqd_def vqd_from_body_def match_at_def is_quote_def
        is_token_char_def)

lemma asearch_loop_at_cap:
  "cap_reached (Some m) n \<Longrightarrow>
   fst (asearch_loop validate (Some m) mk rs offset n) = [Request (mk offset)]"
proof (cases rs)
  case Nil
  then show ?thesis by simp
next
  case (Cons r rs')
  assume c: "cap_reached (Some m) n"
  have "for_results validate (Some m) es n = ([], n, Returned)" if "es \<noteq> []" for es
    using that c by (cases es) auto
  then show ?thesis using Cons
    by (auto split: http_result.splits json_body.splits results_value.splits)
qed

text \<open>
  What holds of the maximum on the code as it is: with \<open>max_results = m\<close> the generator
  yields at most \<open>m\<close> values, and after the \<open>m\<close>-th value it issues at most one further
  page request.
\<close>

lemma asearch_yield_bound:
  "max_results a = Some m \<Longrightarrow>
     length (yields (fst (asearch validate a token_response page_responses))) \<le> nat m \<and>
     length (requests (after_yields (nat m)
        (fst (asearch validate a token_response page_responses)))) \<le> 1"
proof -
  assume m: "max_results a = Some m"
  show ?thesis
  proof (cases "get_vqd token_response")
    case (Inl e)
    then show ?thesis by (cases "nat m") (simp_all add: asearch_def)
  next
    case (Inr token)
    then show ?thesis
      using m asearch_loop_yield_bound [of validate m "make_params a token" page_responses 0 0]
        asearch_loop_requests_after_cap [of m 0 validate "make_params a token" page_responses 0]
      by (simp add: asearch_def)
  qed
qed

text \<open>
  C3 on the code: \<open>asearch("cats", max_results=1)\<close>, a first page with one valid entry
  and a next-page indicator. The one value is yielded, which reaches the maximum; the
  test of the maximum stands only at the head of the loop over a page, so the
  \<open>while\<close> loop goes on, advances the offset to 1 and issues a second page request, and
  the generator ends only at the first entry of that page. When the second request
  fails, the generator raises \<open>NetworkError\<close> after it has yielded all it may yield.
  (The generator runs on when its consumer asks for a further value, as \<open>async for\<close>
  does.)
\<close>

theorem cap_at_page_end_requests_again:
  "asearch Some ((default_args ''cats'')\<lparr>max_results := Some 1\<rparr>) token_page
       [Response True (JsonDict (Entries [''a'']) True),
        Response True (JsonDict (Entries [''b'']) True)]
     = ([Request (cats_params 0), Yield ''a'', Request (cats_params 1)], Stopped) \<and>
   asearch Some ((default_args ''cats'')\<lparr>max_results := Some 1\<rparr>) token_page
       [Response True (JsonDict (Entries [''a'']) True), RequestFailed]
     = ([Request (cats_params 0), Yield ''a'', Request (cats_params 1)], Raised NetworkError)"
  by (simp add: asearch_def get_vqd_token_page default_args_def cap_reached_def prepend_def
        make_params_def cats_params_def f_value_def filters_def filter_entry_def)







subsection \<open>The page scraper\<close>

lemma map_raising_all:
  "list_all (\<lambda>x. g x \<noteq> None) xs \<Longrightarrow> map_raising g xs = Some (map (\<lambda>x. the (g x)) xs)"
  by (induction xs) auto

lemma map_raising_some:
  "\<not> list_all (\<lambda>x. g x \<noteq> None) xs \<Longrightarrow> map_raising g xs = None"
  by (induction xs) (auto split: option.splits)

lemma image_urls_present: "image_urls img_tags = map the (filter present img_tags)"
proof -
  have "present = (\<lambda>src. src \<noteq> None \<and> src \<noteq> Some [])"
    by (rule ext) (simp only: present_def)
  then show ?thesis by (simp only: image_urls_def)
qed

text \<open>
  C9, as stated, fails: an image tag whose \<open>src\<close> is the empty string is left out. A
  page with the two tags \<open>src="a.png"\<close> and \<open>src=""\<close> gives one URL, although the empty
  reference resolves (to the page's own URL).
\<close>

theorem scraper_empty_src_counterexample:
  "get_images_from_page two_tags concat_join ''http://h/'' (Response True ''page'') =
     Inr [''http://h/a.png''] \<and>
   two_tags ''page'' = Some [Some ''a.png'', Some []] \<and>
   concat_join ''http://h/'' [] = Some ''http://h/''"
  by (simp add: get_images_from_page_def two_tags_def concat_join_def image_urls_def)

text \<open>
  C9 (amended): for every fetched page (a response with a success status) whose markup
  parses: when every non-empty image source resolves against the page's URL, the
  scraper returns the resolution of the \<open>src\<close> of every image tag that has a non-empty
  \<open>src\<close>, in the order of the document and with repetitions kept (tags with no \<open>src\<close>
  or an empty one are left out); when some non-empty source does not resolve
  (\<open>urljoin\<close> raises), the call fails with \<open>ParsingError\<close> and returns no list. A page
  whose markup does not parse gives \<open>ParsingError\<close>.
\<close>

theorem scraper_sources:
  "(find_all_img markup = Some img_tags \<and>
    list_all (\<lambda>u. urljoin url u \<noteq> None) (image_urls img_tags) \<longrightarrow>
      get_images_from_page find_all_img urljoin url (Response True markup) =
        Inr (map (\<lambda>src. the (urljoin url (the src))) (filter present img_tags))) \<and>
   (find_all_img markup = Some img_tags \<and>
    \<not> list_all (\<lambda>u. urljoin url u \<noteq> None) (image_urls img_tags) \<longrightarrow>
      get_images_from_page find_all_img urljoin url (Response True markup) = Inl ParsingError) \<and>
   image_urls img_tags = map the (filter present img_tags) \<and>
   (find_all_img markup = None \<longrightarrow>
      get_images_from_page find_all_img urljoin url (Response True markup) = Inl ParsingError) \<and>
   get_images_from_page find_all_img urljoin url RequestFailed = Inl NetworkError"
proof -
  have a: "get_images_from_page find_all_img urljoin url (Response True markup) =
        Inr (map (\<lambda>src. the (urljoin url (the src))) (filter present img_tags))"
    if h: "find_all_img markup = Some img_tags \<and>
        list_all (\<lambda>u. urljoin url u \<noteq> None) (image_urls img_tags)"
  proof -
    from h have "map_raising (urljoin url) (image_urls img_tags) =
        Some (map (\<lambda>u. the (urljoin url u)) (image_urls img_tags))"
      by (simp add: map_raising_all)
    then show ?thesis using h
      by (simp add: get_images_from_page_def image_urls_present comp_def)
  qed
  have a': "get_images_from_page find_all_img urljoin url (Response True markup) = Inl ParsingError"
    if h: "find_all_img markup = Some img_tags \<and>
        \<not> list_all (\<lambda>u. urljoin url u \<noteq> None) (image_urls img_tags)"
  proof -
    from h have "map_raising (urljoin url) (image_urls img_tags) = None"
      by (simp add: map_raising_some)
    then show ?thesis using h by (simp add: get_images_from_page_def)
  qed
  have b: "get_images_from_page find_all_img urljoin url (Response True markup) = Inl ParsingError"
    if "find_all_img markup = None"
    using that by (simp add: get_images_from_page_def)
  have c: "get_images_from_page find_all_img urljoin url RequestFailed = Inl NetworkError"
    by (simp add: get_images_from_page_def)
  from a a' b c image_urls_present [of img_tags] show ?thesis by blast
qed

theorem scraper_sources_witness:
  "four_tags ''page'' = Some [Some ''a.png'', None, Some ''b/c.png'', Some ''a.png''] \<and>
   list_all (\<lambda>u. concat_join ''http://h/'' u \<noteq> None)
     (image_urls [Some ''a.png'', None, Some ''b/c.png'', Some ''a.png'']) \<and>
   get_images_from_page four_tags concat_join ''http://h/'' (Response True ''page'') =
     Inr [''http://h/a.png'', ''http://h/b/c.png'', ''http://h/a.png''] \<and>
   bracket_tags ''page'' = Some [Some ''a.png'', Some ''http://[''] \<and>
   \<not> list_all (\<lambda>u. picky_join ''http://h/'' u \<noteq> None)
     (image_urls [Some ''a.png'', Some ''http://['']) \<and>
   get_images_from_page bracket_tags picky_join ''http://h/'' (Response True ''page'') =
     Inl ParsingError"
proof -
  have h: "four_tags ''page'' = Some [Some ''a.png'', None, Some ''b/c.png'', Some ''a.png''] \<and>
     list_all (\<lambda>u. concat_join ''http://h/'' u \<noteq> None)
       (image_urls [Some ''a.png'', None, Some ''b/c.png'', Some ''a.png''])"
    by (simp add: four_tags_def concat_join_def image_urls_def)
  have e: "map (\<lambda>src. the (concat_join ''http://h/'' (the src)))
       (filter present [Some ''a.png'', None, Some ''b/c.png'', Some ''a.png'']) =
     [''http://h/a.png'', ''http://h/b/c.png'', ''http://h/a.png'']"
    by (simp add: present_def concat_join_def)
  from scraper_sources [where find_all_img = four_tags and markup = "''page''"
      and img_tags = "[Some ''a.png'', None, Some ''b/c.png'', Some ''a.png'']"
      and urljoin = concat_join and url = "''http://h/''"] h
  have "get_images_from_page four_tags concat_join ''http://h/'' (Response True ''page'') =
     Inr (map (\<lambda>src. the (concat_join ''http://h/'' (the src)))
       (filter present [Some ''a.png'', None, Some ''b/c.png'', Some ''a.png'']))"
    by blast
  with e have w1: "get_images_from_page four_tags concat_join ''http://h/'' (Response True ''page'') =
     Inr [''http://h/a.png'', ''http://h/b/c.png'', ''http://h/a.png'']"
    by (simp only:)
  have g: "bracket_tags ''page'' = Some [Some ''a.png'', Some ''http://[''] \<and>
     \<not> list_all (\<lambda>u. picky_join ''http://h/'' u \<noteq> None)
       (image_urls [Some ''a.png'', Some ''http://[''])"
    by (simp add: bracket_tags_def picky_join_def image_urls_def)
  from scraper_sources [where find_all_img = bracket_tags and markup = "''page''"
      and img_tags = "[Some ''a.png'', Some ''http://['']"
      and urljoin = picky_join and url = "''http://h/''"] g
  have w2: "get_images_from_page bracket_tags picky_join ''http://h/'' (Response True ''page'') =
     Inl ParsingError"
    by blast
  from h w1 g w2 show ?thesis by blast
qed

subsection \<open>Download\<close>

lemma split_on_nonempty: "split_on c s \<noteq> []"
  by (induction s) (auto split: list.splits)

lemma derived_filename_is_list:
  "derived_filename url = PyList (split_on CHR ''?'' (last (split_on CHR ''/'' url)))"
  by (simp add: derived_filename_def Let_def split_on_nonempty)

text \<open>
  C1 on the code: with no file name given (or an empty one), \<open>filename\<close> becomes the
  list returned by \<open>split("?")\<close> (the index \<open>[0]\<close> is missing), which is never empty, so
  the fallback name is never used, and \<open>os.path.join\<close> raises \<open>TypeError\<close> before any
  request: nothing is written. For the URL ending in \<open>/pic.jpg?size=large\<close> the list is
  \<open>["pic.jpg", "size=large"]\<close>. With the name \<open>pic.jpg\<close> given, the file is
  \<open>out/pic.jpg\<close>.
\<close>

theorem download_default_filename_type_error:
  "download url output_dir None r = Inl TypeError \<and>
   download url output_dir (Some []) r = Inl TypeError \<and>
   derived_filename ''https://example.com/img/pic.jpg?size=large'' =
     PyList [''pic.jpg'', ''size=large''] \<and>
   download ''https://example.com/img/pic.jpg?size=large'' ''out'' None (Response True chunks) =
     Inl TypeError \<and>
   download ''https://example.com/img/pic.jpg?size=large'' ''out'' (Some ''pic.jpg'')
       (Response True chunks) = Inr (''out/pic.jpg'', concat chunks)"
  by (simp add: download_def derived_filename_is_list)


end
